theory Spec2Isabelle
  imports Complex_Main "HOL-Library.Word"
begin

section \<open>The size-budgeted encoder of \<^verbatim>\<open>VD_Hourly_Whatsapp.py\<close>\<close>

text \<open>
  \<^verbatim>\<open>optimize_image\<close> only reads \<^verbatim>\<open>img.mode\<close> and \<^verbatim>\<open>img.size\<close> of its image and hands it
  to three operations of the imaging library (Pillow): \<^verbatim>\<open>convert\<close>, \<^verbatim>\<open>save\<close> as JPEG and
  \<^verbatim>\<open>resize\<close> with the LANCZOS filter. The library is not part of the repository, so the
  image type is a type variable and the library is a record of operations, each of which
  may raise. Every call of the library is appended to a log, so that the number and the
  order of the encode attempts are part of the result.
\<close>

type_synonym byte = "8 word"
type_synonym bytes = "byte list"

datatype error = IndexError | ValueError | OSError | UnboundLocalError | ZeroDivisionError

datatype 'img call =
    is_Convert: Convert 'img string
  | is_Save: Save 'img int
  | is_Resize: Resize 'img "nat \<times> nat"

record 'img PIL =
  mode_of :: "'img \<Rightarrow> string"
  size_of :: "'img \<Rightarrow> nat \<times> nat"
  convert :: "'img \<Rightarrow> string \<Rightarrow> error + 'img"
  save_jpeg :: "'img \<Rightarrow> int \<Rightarrow> error + bytes"
  resize_lanczos :: "'img \<Rightarrow> nat \<times> nat \<Rightarrow> error + 'img"

text \<open>Early \<^verbatim>\<open>return\<close> from inside a loop, against running the loop to its end.\<close>

datatype ('r, 's) flow = Return 'r | Fallthrough 's

text \<open>The module constants (lines 38 and 39).\<close>

definition TARGET_SIZE_BYTES :: nat where
  "TARGET_SIZE_BYTES = 4 * 1024 * 1024"

definition JPEG_QUALITIES :: "int list" where
  "JPEG_QUALITIES = [95, 85, 75, 65, 55]"

subsection \<open>\<^verbatim>\<open>int(w * 0.96)\<close>\<close>

text \<open>
  \<^verbatim>\<open>w * 0.96\<close> converts the integer to a binary64 float, multiplies by the binary64
  number nearest to 0.96, which is \<open>8646911284551352 / 2 ^ 53\<close>, and rounds the product to
  53 significant bits, ties to even; \<^verbatim>\<open>int\<close> then truncates. \<open>rne53\<close> rounds a natural
  number to 53 significant bits; scaling by a power of two commutes with that rounding,
  so the product is rounded as the integer \<open>float(w) * 8646911284551352\<close>. (Overflow to
  infinity needs more than 1000 bits and is left out.)
\<close>

fun bit_length :: "nat \<Rightarrow> nat" where
  "bit_length n = (if n = 0 then 0 else Suc (bit_length (n div 2)))"

declare bit_length.simps [simp del]

definition rne53 :: "nat \<Rightarrow> nat" where
  "rne53 n =
     (let s = bit_length n - 53;
          q = n div 2 ^ s;
          r = n mod 2 ^ s
      in (if 2 ^ s < 2 * r \<or> (2 * r = 2 ^ s \<and> odd q) then q + 1 else q) * 2 ^ s)"

definition float_0_96 :: nat where
  "float_0_96 = 8646911284551352"

definition int_mul_0_96 :: "nat \<Rightarrow> nat" where
  "int_mul_0_96 w = rne53 (rne53 w * float_0_96) div 2 ^ 53"

subsection \<open>\<^verbatim>\<open>jpg_bytes\<close> and \<^verbatim>\<open>optimize_image\<close>\<close>

text \<open>Lines 61 to 64: one encode attempt.\<close>

definition jpg_bytes ::
  "'img PIL \<Rightarrow> 'img \<Rightarrow> int \<Rightarrow> 'img call list \<Rightarrow> (error + bytes) \<times> 'img call list" where
  "jpg_bytes lib img quality calls = (save_jpeg lib img quality, calls @ [Save img quality])"

text \<open>Lines 67 and 68.\<close>

definition to_rgb ::
  "'img PIL \<Rightarrow> 'img \<Rightarrow> 'img call list \<Rightarrow> (error + 'img) \<times> 'img call list" where
  "to_rgb lib img calls =
     (if mode_of lib img \<noteq> ''RGB''
      then (convert lib img ''RGB'', calls @ [Convert img ''RGB''])
      else (Inr img, calls))"

text \<open>
  Lines 70 to 74, the loop over the quality ladder. \<open>data\<close> is the local variable
  \<^verbatim>\<open>data\<close>, unbound (\<open>None\<close>) before the first attempt. The \<^verbatim>\<open>logger.info\<close> line
  only writes a log line and is left out. \<open>target\<close> is the global
  \<^verbatim>\<open>TARGET_SIZE_BYTES\<close>, read at each comparison.
\<close>

fun quality_loop ::
  "'img PIL \<Rightarrow> nat \<Rightarrow> 'img \<Rightarrow> int list \<Rightarrow> bytes option \<Rightarrow> 'img call list
     \<Rightarrow> (error + (bytes, bytes option) flow) \<times> 'img call list" where
  "quality_loop lib target img [] data calls = (Inr (Fallthrough data), calls)"
| "quality_loop lib target img (q # qs) data calls =
     (case jpg_bytes lib img q calls of
        (Inl e, calls') \<Rightarrow> (Inl e, calls')
      | (Inr d, calls') \<Rightarrow>
          if length d \<le> target then (Inr (Return d), calls')
          else quality_loop lib target img qs (Some d) calls')"

text \<open>Lines 77 to 83, \<^verbatim>\<open>for _ in range(n)\<close> over the variables \<^verbatim>\<open>w, h, img, data\<close>.\<close>

fun downscale_loop ::
  "'img PIL \<Rightarrow> nat \<Rightarrow> nat \<Rightarrow> nat \<times> nat \<times> 'img \<times> bytes option \<Rightarrow> 'img call list
     \<Rightarrow> (error + (bytes, nat \<times> nat \<times> 'img \<times> bytes option) flow) \<times> 'img call list" where
  "downscale_loop lib target 0 st calls = (Inr (Fallthrough st), calls)"
| "downscale_loop lib target (Suc n) (w, h, img, data) calls =
     (let w' = int_mul_0_96 w;
          h' = int_mul_0_96 h
      in case resize_lanczos lib img (w', h') of
           Inl e \<Rightarrow> (Inl e, calls @ [Resize img (w', h')])
         | Inr img' \<Rightarrow>
             (case jpg_bytes lib img' 65 (calls @ [Resize img (w', h')]) of
                (Inl e, calls') \<Rightarrow> (Inl e, calls')
              | (Inr d, calls') \<Rightarrow>
                  if length d \<le> target then (Inr (Return d), calls')
                  else downscale_loop lib target n (w', h', img', Some d) calls'))"

text \<open>Lines 66 to 85.\<close>

definition optimize_image ::
  "'img PIL \<Rightarrow> nat \<Rightarrow> 'img \<Rightarrow> (error + bytes) \<times> 'img call list" where
  "optimize_image lib target img =
     (case to_rgb lib img [] of
        (Inl e, calls0) \<Rightarrow> (Inl e, calls0)
      | (Inr im, calls0) \<Rightarrow>
          (case quality_loop lib target im JPEG_QUALITIES None calls0 of
             (Inl e, calls1) \<Rightarrow> (Inl e, calls1)
           | (Inr (Return d), calls1) \<Rightarrow> (Inr d, calls1)
           | (Inr (Fallthrough data), calls1) \<Rightarrow>
               (case size_of lib im of
                  (w, h) \<Rightarrow>
                    (case downscale_loop lib target 3 (w, h, im, data) calls1 of
                       (Inl e, calls2) \<Rightarrow> (Inl e, calls2)
                     | (Inr (Return d), calls2) \<Rightarrow> (Inr d, calls2)
                     | (Inr (Fallthrough (w', h', im', data')), calls2) \<Rightarrow>
                         (case data' of
                            None \<Rightarrow> (Inl UnboundLocalError, calls2)
                          | Some d \<Rightarrow> (Inr d, calls2))))))"


section \<open>The whitespace trimmers\<close>

text \<open>
  Both trimmers are called on images that were converted to RGB first
  (\<^verbatim>\<open>pages[0].convert("RGB")\<close> and \<^verbatim>\<open>Image.open(...).convert("RGB")\<close>), so an image
  is a raster of RGB pixels, three 8-bit channels each: its size and its rows from top
  to bottom. The operations of the imaging library that the trimmers call work on
  pixels, so they are written out here, after the library's documented behaviour.
\<close>

type_synonym pixel = "byte \<times> byte \<times> byte"

record image =
  width :: nat
  height :: nat
  rows :: "pixel list list"

definition wf_image :: "image \<Rightarrow> bool" where
  "wf_image img \<longleftrightarrow>
     length (rows img) = height img \<and> (\<forall>r\<in>set (rows img). length r = width img)"

type_synonym box = "int \<times> int \<times> int \<times> int"

subsection \<open>The library's operations\<close>

text \<open>\<^verbatim>\<open>Image.new(mode, size, color)\<close> for an RGB image.\<close>

definition Image_new :: "nat \<times> nat \<Rightarrow> pixel \<Rightarrow> image" where
  "Image_new sz color =
     \<lparr>width = fst sz, height = snd sz, rows = replicate (snd sz) (replicate (fst sz) color)\<rparr>"

text \<open>\<^verbatim>\<open>img.getpixel((x, y))\<close> raises \<^verbatim>\<open>IndexError\<close> outside the image.\<close>

definition getpixel :: "image \<Rightarrow> nat \<times> nat \<Rightarrow> error + pixel" where
  "getpixel img xy =
     (if fst xy < width img \<and> snd xy < height img
      then Inr (rows img ! snd xy ! fst xy) else Inl IndexError)"

text \<open>
  The channel operations store their integer result clipped to 0..255; a C cast from a
  float to an integer truncates towards zero.
\<close>

definition clip8 :: "int \<Rightarrow> byte" where
  "clip8 t = (if t \<le> 0 then 0 else if 255 \<le> t then 255 else word_of_int t)"

definition c_trunc :: "rat \<Rightarrow> int" where
  "c_trunc x = (if x < 0 then \<lceil>x\<rceil> else \<lfloor>x\<rfloor>)"

definition map_pixel2 :: "(byte \<Rightarrow> byte \<Rightarrow> byte) \<Rightarrow> pixel \<Rightarrow> pixel \<Rightarrow> pixel" where
  "map_pixel2 f p q =
     (f (fst p) (fst q), f (fst (snd p)) (fst (snd q)), f (snd (snd p)) (snd (snd q)))"

text \<open>A two-image channel operation: the result has the smaller of the two sizes.\<close>

definition chop :: "(byte \<Rightarrow> byte \<Rightarrow> byte) \<Rightarrow> image \<Rightarrow> image \<Rightarrow> image" where
  "chop f a b =
     \<lparr>width = min (width a) (width b), height = min (height a) (height b),
      rows = map2 (map2 (map_pixel2 f)) (rows a) (rows b)\<rparr>"

text \<open>\<^verbatim>\<open>ImageChops.difference(a, b)\<close>: \<^verbatim>\<open>abs(a - b)\<close> in each channel.\<close>

definition difference_channel :: "byte \<Rightarrow> byte \<Rightarrow> byte" where
  "difference_channel a b = clip8 \<bar>uint a - uint b\<bar>"

definition ImageChops_difference :: "image \<Rightarrow> image \<Rightarrow> image" where
  "ImageChops_difference a b = chop difference_channel a b"

text \<open>
  \<^verbatim>\<open>ImageChops.add(a, b, scale, offset)\<close>: \<^verbatim>\<open>(a + b) / scale + offset\<close> in each channel,
  computed in floating point and cast to an integer. The scale is a rational number
  here and the arithmetic is exact, as the floating-point one is for the scale 2.0 and
  the offset -100 of \<^verbatim>\<open>trim_white_space\<close>, where every intermediate value is a multiple
  of one half below 2 ^ 10.
\<close>

definition add_channel :: "rat \<Rightarrow> int \<Rightarrow> byte \<Rightarrow> byte \<Rightarrow> byte" where
  "add_channel scale offset a b =
     clip8 (c_trunc (of_int (uint a + uint b) / scale + of_int offset))"

definition ImageChops_add :: "image \<Rightarrow> image \<Rightarrow> rat \<Rightarrow> int \<Rightarrow> image" where
  "ImageChops_add a b scale offset = chop (add_channel scale offset) a b"

text \<open>
  \<^verbatim>\<open>ImageEnhance.Contrast(image).enhance(factor)\<close>. The constructor takes the mean of the
  image converted to mode L (luma \<^verbatim>\<open>(19595 r + 38470 g + 7471 b + 0x8000) >> 16\<close>),
  rounds it with \<^verbatim>\<open>int(mean + 0.5)\<close> and keeps a grey image of that value;
  \<^verbatim>\<open>enhance\<close> is \<^verbatim>\<open>Image.blend(grey, image, factor)\<close>, in each channel
  \<^verbatim>\<open>grey + factor * (image - grey)\<close> clipped to 0..255 and truncated. The mean is the
  exact quotient here (the program's is the binary64 one).
\<close>

definition luma :: "pixel \<Rightarrow> int" where
  "luma p =
     (uint (fst p) * 19595 + uint (fst (snd p)) * 38470 + uint (snd (snd p)) * 7471 + 32768)
       div 65536"

definition blend_channel :: "rat \<Rightarrow> byte \<Rightarrow> byte \<Rightarrow> byte" where
  "blend_channel alpha a b =
     (let t = of_int (uint a) + alpha * (of_int (uint b) - of_int (uint a))
      in if t \<le> 0 then 0 else if 255 \<le> t then 255 else word_of_int \<lfloor>t\<rfloor>)"

definition Image_blend :: "image \<Rightarrow> image \<Rightarrow> rat \<Rightarrow> image" where
  "Image_blend a b alpha = chop (blend_channel alpha) a b"

definition Contrast_enhance :: "image \<Rightarrow> rat \<Rightarrow> error + image" where
  "Contrast_enhance img factor =
     (let count = int (width img * height img)
      in if count = 0 then Inl ZeroDivisionError
         else
           (let total = sum_list (map luma (concat (rows img)));
                mean = \<lfloor>of_int total / of_int count + (1 / 2 :: rat)\<rfloor>;
                m = word_of_int mean;
                degenerate = Image_new (width img, height img) (m, m, m)
            in Inr (Image_blend degenerate img factor)))"

text \<open>
  \<^verbatim>\<open>img.getbbox()\<close>: the smallest box (left, upper, right, lower; right and lower
  exclusive) that holds every pixel with a non-zero channel, \<^verbatim>\<open>None\<close> when there is
  none.
\<close>

definition nonzero :: "pixel \<Rightarrow> bool" where
  "nonzero p \<longleftrightarrow> p \<noteq> (0, 0, 0)"

definition getbbox :: "image \<Rightarrow> box option" where
  "getbbox img =
     (let ys = filter (\<lambda>y. \<exists>x\<in>set [0..<width img]. nonzero (rows img ! y ! x)) [0..<height img];
          xs = filter (\<lambda>x. \<exists>y\<in>set [0..<height img]. nonzero (rows img ! y ! x)) [0..<width img]
      in if ys = [] then None
         else Some (int (hd xs), int (hd ys), int (last xs) + 1, int (last ys) + 1))"

text \<open>
  \<^verbatim>\<open>img.crop(box)\<close>: the pixels of the box; what lies outside the image is black, and a
  box whose right or lower edge is before its left or upper edge raises \<^verbatim>\<open>ValueError\<close>.
\<close>

definition pixel_at :: "image \<Rightarrow> int \<Rightarrow> int \<Rightarrow> pixel" where
  "pixel_at img x y =
     (if 0 \<le> x \<and> x < int (width img) \<and> 0 \<le> y \<and> y < int (height img)
      then rows img ! nat y ! nat x else (0, 0, 0))"

definition crop :: "image \<Rightarrow> box \<Rightarrow> error + image" where
  "crop img b =
     (case b of (x0, y0, x1, y1) \<Rightarrow>
        if x1 < x0 \<or> y1 < y0 then Inl ValueError
        else Inr \<lparr>width = nat (x1 - x0), height = nat (y1 - y0),
                  rows = map (\<lambda>y. map (\<lambda>x. pixel_at img x y) [x0..x1 - 1]) [y0..y1 - 1]\<rparr>)"

subsection \<open>\<^verbatim>\<open>crop_white_space\<close> of \<^verbatim>\<open>VD_Hourly_Whatsapp.py\<close>\<close>

text \<open>Lines 88 to 90: the value of \<^verbatim>\<open>diff\<close> before \<^verbatim>\<open>getbbox\<close>.\<close>

definition crop_white_space_diff :: "image \<Rightarrow> error + image" where
  "crop_white_space_diff img =
     (case getpixel img (0, 0) of
        Inl e \<Rightarrow> Inl e
      | Inr c \<Rightarrow>
          (let bg = Image_new (width img, height img) c;
               diff = ImageChops_difference img bg
           in Contrast_enhance diff 3))"

text \<open>Lines 87 to 92.\<close>

definition crop_white_space :: "image \<Rightarrow> error + image" where
  "crop_white_space img =
     (case crop_white_space_diff img of
        Inl e \<Rightarrow> Inl e
      | Inr diff \<Rightarrow>
          (case getbbox diff of
             Some bbox \<Rightarrow> crop img bbox
           | None \<Rightarrow> Inr img))"

subsection \<open>\<^verbatim>\<open>trim_white_space\<close> of \<^verbatim>\<open>vd_pdf_report.py\<close>\<close>

text \<open>Lines 63 to 65: the value of \<^verbatim>\<open>diff\<close> before \<^verbatim>\<open>getbbox\<close>.\<close>

definition trim_white_space_diff :: "image \<Rightarrow> image" where
  "trim_white_space_diff img =
     (let bg = Image_new (width img, height img) (255, 255, 255);
          diff = ImageChops_difference img bg
      in ImageChops_add diff diff 2 (- 100))"

text \<open>Lines 62 to 74.\<close>

definition trim_white_space :: "image \<Rightarrow> error + image" where
  "trim_white_space img =
     (case getbbox (trim_white_space_diff img) of
        Some (x0, y0, x1, y1) \<Rightarrow>
          (let padding = 15;
               b_x0 = max 0 (x0 - padding);
               b_y0 = max 0 (y0 - padding);
               b_x1 = min (int (width img)) (x1 + padding);
               b_y1 = min (int (height img)) (y1 + padding)
           in crop img (b_x0, b_y0, b_x1, b_y1))
      | None \<Rightarrow> Inr img)"

section \<open>Notions used to state the properties\<close>

definition map_pixel :: "(byte \<Rightarrow> byte) \<Rightarrow> pixel \<Rightarrow> pixel" where
  "map_pixel f p = (f (fst p), f (fst (snd p)), f (snd (snd p)))"

definition white :: pixel where
  "white = (255, 255, 255)"

text \<open>
  A pixel all of whose channels differ from pure white by at most 100.
\<close>

definition near_white :: "pixel \<Rightarrow> bool" where
  "near_white p \<longleftrightarrow>
     255 - uint (fst p) \<le> 100 \<and> 255 - uint (fst (snd p)) \<le> 100 \<and>
     255 - uint (snd (snd p)) \<le> 100"

text \<open>
  The amplification of the affine-remap variant in the words of the specification, a
  scale of 3.0 and a bias of -100 on the raw difference, clamped to the channel range.
  It is compared with what \<open>trim_white_space_diff\<close> computes.
\<close>

definition spec_affine_remap :: "byte \<Rightarrow> byte" where
  "spec_affine_remap d = clip8 (c_trunc (3 * of_int (uint d) + of_int (- 100)))"

section \<open>Inputs for running the model\<close>

text \<open>
  A small library to run the encoder on: an image is its size, every image is RGB, the
  JPEG of a \<open>w\<close> by \<open>h\<close> image at quality \<open>q\<close> has \<open>w * h * q div 1000\<close> zero bytes, and
  \<open>resize\<close> refuses a size with a side of 0 as the imaging library does
  (\<^verbatim>\<open>ValueError: height and width must be > 0\<close>).
\<close>

definition toy_lib :: "(nat \<times> nat) PIL" where
  "toy_lib =
     \<lparr>mode_of = (\<lambda>im. ''RGB''),
      size_of = (\<lambda>im. im),
      convert = (\<lambda>im m. Inr im),
      save_jpeg = (\<lambda>im q. Inr (replicate (fst im * snd im * nat q div 1000) 0)),
      resize_lanczos = (\<lambda>im sz. if fst sz < 1 \<or> snd sz < 1 then Inl ValueError else Inr sz)\<rparr>"

text \<open>Small images to run the trimmers on.\<close>

definition blank_image :: image where
  "blank_image =
     \<lparr>width = 2, height = 2,
      rows = [[(10, 20, 30), (10, 20, 30)], [(10, 20, 30), (10, 20, 30)]]\<rparr>"

definition full_box_image :: image where
  "full_box_image =
     \<lparr>width = 2, height = 2, rows = [[white, (0, 0, 0)], [(0, 0, 0), (0, 0, 0)]]\<rparr>"

definition dot_image :: image where
  "dot_image =
     \<lparr>width = 3, height = 2, rows = [[white, (0, 0, 0), white], [white, white, white]]\<rparr>"

definition grey_pixel_image :: image where
  "grey_pixel_image = \<lparr>width = 1, height = 1, rows = [[(205, 205, 205)]]\<rparr>"

definition block_image :: image where
  "block_image =
     \<lparr>width = 33, height = 1, rows = [replicate 16 white @ [(0, 0, 0)] @ replicate 16 white]\<rparr>"

definition light_block_image :: image where
  "light_block_image =
     \<lparr>width = 17, height = 1, rows = [(200, 200, 200) # replicate 16 white]\<rparr>"

definition grey_ground_image :: image where
  "grey_ground_image =
     \<lparr>width = 33, height = 1,
      rows = [replicate 16 (100, 100, 100) @ [(0, 0, 0)] @ replicate 16 (100, 100, 100)]\<rparr>"

definition two_tone_image :: image where
  "two_tone_image =
     \<lparr>width = 35, height = 1,
      rows = [replicate 16 white @ [(200, 200, 200), (0, 0, 0)] @ replicate 17 white]\<rparr>"

definition faint_image :: image where
  "faint_image = \<lparr>width = 3, height = 1, rows = [[white, (155, 200, 255), (0, 0, 0)]]\<rparr>"

definition pale_image :: image where
  "pale_image = \<lparr>width = 2, height = 1, rows = [[(200, 200, 200), white]]\<rparr>"

definition far_light_image :: image where
  "far_light_image =
     \<lparr>width = 40, height = 1,
      rows = [[(0, 0, 0)] @ replicate 38 white @ [(200, 200, 200)]]\<rparr>"

definition faint_step_image :: image where
  "faint_step_image =
     \<lparr>width = 4, height = 1,
      rows = [[(0, 0, 0), (1, 1, 1), (255, 255, 255), (255, 255, 255)]]\<rparr>"

section \<open>Evaluation rules\<close>

lemma replicate_numeral: "replicate (numeral k) x = x # replicate (pred_numeral k) x"
  by (simp add: numeral_eq_Suc)

lemma bit_length_numeral: "bit_length (numeral k) = 1 + bit_length (numeral k div 2)"
  by (subst bit_length.simps) simp

lemma bit_length_0: "bit_length 0 = 0"
  by (subst bit_length.simps) simp

lemma bit_length_1: "bit_length (Suc 0) = 1"
  by (subst bit_length.simps) (simp add: bit_length_0)

lemmas float_eval =
  int_mul_0_96_def rne53_def float_0_96_def bit_length_numeral bit_length_0 bit_length_1 Let_def

lemma int_mul_0_96_samples:
  "int_mul_0_96 10 = 9" "int_mul_0_96 9 = 8" "int_mul_0_96 8 = 7"
  by (simp_all add: float_eval)

subsection \<open>\<^verbatim>\<open>int(w * 0.96)\<close> is the integer part of \<open>0.96 w\<close>\<close>

text \<open>
  For every size below \<open>2 ^ 31\<close> (the library keeps sizes in C integers) the rounded
  binary64 product truncates to \<open>w * 24 div 25\<close>, the integer part of the exact
  \<open>0.96 w\<close>: the rounding error of the product is too small to cross an integer.
\<close>

lemma bit_length_bounds:
  "0 < n \<Longrightarrow> 2 ^ (bit_length n - 1) \<le> n \<and> n < 2 ^ bit_length n"
proof (induction n rule: bit_length.induct)
  case (1 n)
  show ?case
  proof (cases "n div 2 = 0")
    case True
    with "1.prems" have "n = 1" by (simp add: div_eq_0_iff) 
    then show ?thesis
      by (simp add: bit_length_1)
  next
    case False
    then have pos: "0 < n div 2" by simp
    from "1.IH" [OF _ pos] "1.prems"
    have ih: "2 ^ (bit_length (n div 2) - 1) \<le> n div 2" "n div 2 < 2 ^ bit_length (n div 2)"
      by simp_all
    have bl: "bit_length n = Suc (bit_length (n div 2))"
      using "1.prems" by (subst bit_length.simps) simp
    have "0 < bit_length (n div 2)"
      using pos by (subst bit_length.simps) simp
    then have "(2::nat) ^ bit_length (n div 2) = 2 * 2 ^ (bit_length (n div 2) - 1)"
      by (cases "bit_length (n div 2)") simp_all
    with ih(1) have lo: "2 ^ bit_length (n div 2) \<le> n" by linarith
    from ih(2) have "n < 2 * 2 ^ bit_length (n div 2)" by linarith
    with lo show ?thesis by (simp add: bl)
  qed
qed

lemma rne53_small:
  assumes "n < 2 ^ 53"
  shows "rne53 n = n"
proof -
  have "bit_length n \<le> 53"
  proof (cases "n = 0")
    case True
    then show ?thesis by (simp add: bit_length.simps [of 0])
  next
    case False
    then have "(2::nat) ^ (bit_length n - 1) \<le> n" using bit_length_bounds [of n] by simp
    with assms have "(2::nat) ^ (bit_length n - 1) < 2 ^ 53" by linarith
    then have "bit_length n - 1 < 53" by (simp only: power_strict_increasing_iff) 
    then show ?thesis by simp
  qed
  then show ?thesis by (simp add: rne53_def)
qed

lemma rne53_props:
  assumes "s = bit_length n - 53"
  shows "2 ^ s dvd rne53 n" and "2 * rne53 n \<le> 2 * n + 2 ^ s" and "2 * n \<le> 2 * rne53 n + 2 ^ s"
proof -
  let ?q = "n div 2 ^ s" and ?r = "n mod 2 ^ s"
  have n: "n = ?q * 2 ^ s + ?r" by (rule div_mult_mod_eq [symmetric])
  have r: "?r < 2 ^ s" by simp
  have R: "rne53 n = (if 2 ^ s < 2 * ?r \<or> (2 * ?r = 2 ^ s \<and> odd ?q) then ?q + 1 else ?q) * 2 ^ s"
    using assms by (simp add: rne53_def Let_def)
  show "2 ^ s dvd rne53 n" by (simp add: R)
  show "2 * rne53 n \<le> 2 * n + 2 ^ s"
  proof (cases "2 ^ s < 2 * ?r \<or> (2 * ?r = 2 ^ s \<and> odd ?q)")
    case True
    then have "rne53 n = ?q * 2 ^ s + 2 ^ s" by (simp add: R algebra_simps)
    moreover from True have "2 ^ s \<le> 2 * ?r" by auto
    ultimately show ?thesis using n by linarith
  next
    case False
    then have "rne53 n = ?q * 2 ^ s" by (simp add: R)
    then show ?thesis using n by linarith
  qed
  show "2 * n \<le> 2 * rne53 n + 2 ^ s"
  proof (cases "2 ^ s < 2 * ?r \<or> (2 * ?r = 2 ^ s \<and> odd ?q)")
    case True
    then have "rne53 n = ?q * 2 ^ s + 2 ^ s" by (simp add: R algebra_simps)
    then show ?thesis using n r by linarith
  next
    case False
    then have "rne53 n = ?q * 2 ^ s" by (simp add: R)
    moreover from False have "2 * ?r \<le> 2 ^ s" by auto
    ultimately show ?thesis using n by linarith
  qed
qed

lemma rne53_exponent:
  assumes "s = bit_length n - 53" "0 < n"
  shows "n < 2 ^ s * 2 ^ 53" and "0 < s \<Longrightarrow> 2 ^ s * 2 ^ 52 \<le> n"
proof -
  have "bit_length n \<le> s + 53" using assms(1) by simp
  then have "(2::nat) ^ bit_length n \<le> 2 ^ (s + 53)" by (simp only: power_increasing_iff)
  with bit_length_bounds [OF assms(2)] show "n < 2 ^ s * 2 ^ 53"
    by (simp add: power_add)
  assume "0 < s"
  with assms(1) have "bit_length n - 1 = s + 52" by simp
  with bit_length_bounds [OF assms(2)] show "2 ^ s * 2 ^ 52 \<le> n"
    by (simp add: power_add)
qed

lemma dvd_step_le:
  assumes "(p::nat) dvd a" "p dvd b" "a < b"
  shows "a + p \<le> b"
proof -
  from assms(1,2) obtain i j where a: "a = p * i" and b: "b = p * j" unfolding dvd_def by blast
  with assms(3) have "i < j" by auto
  then have "p * (i + 1) \<le> p * j" by (intro mult_le_mono2) simp
  with a b show ?thesis by simp
qed

lemma int_mul_0_96_floor:
  assumes "w < 2 ^ 31"
  shows "int_mul_0_96 w = w * 24 div 25"
proof (cases "w = 0")
  case True
  then show ?thesis by (simp add: float_eval)
next
  case False
  define n where "n = w * float_0_96"
  define s where "s = bit_length n - 53"
  define P :: nat where "P = 2 ^ s"
  define R where "R = rne53 n"
  define k where "k = w * 24 div 25"
  define f where "f = w * 24 mod 25"
  have w: "0 < w" "w < 2147483648" using False assms by simp_all
  have wk: "w * 24 = 25 * k + f" and f: "f < 25"
    by (simp_all add: k_def f_def)
  have n25: "25 * n + 8 * w = 9007199254740992 * (25 * k + f)"
    unfolding wk [symmetric] by (simp add: n_def float_0_96_def)
  have n25': "25 * n + 8 * w = 225179981368524800 * k + 9007199254740992 * f"
    using n25 by simp
  have npos: "0 < n" using w by (simp add: n_def float_0_96_def)
  have rw: "rne53 w = w" using assms by (intro rne53_small) simp
  have dvdR: "P dvd R" and up: "2 * R \<le> 2 * n + P" and down: "2 * n \<le> 2 * R + P"
    using rne53_props [OF s_def] by (simp_all add: P_def R_def)
  have nP: "n < P * 9007199254740992"
    using rne53_exponent(1) [OF s_def npos] by (simp add: P_def)
  have Ple: "P \<le> 2 * w"
  proof (cases "s = 0")
    case True
    with w show ?thesis by (simp add: P_def)
  next
    case False
    then have "P * 4503599627370496 \<le> n"
      using rne53_exponent(2) [OF s_def npos] by (simp add: P_def)
    moreover have "n < w * 9007199254740992" using w by (simp add: n_def float_0_96_def)
    ultimately show ?thesis by linarith
  qed
  have hi: "R < 9007199254740992 * Suc k"
    using up Ple n25 f w by simp
  have lo: "9007199254740992 * k \<le> R"
  proof (cases "f = 0")
    case False
    then have "1 \<le> f" by simp
    with down Ple n25' w show ?thesis by linarith
  next
    case True
    show ?thesis
    proof (rule ccontr)
      assume "\<not> 9007199254740992 * k \<le> R"
      then have less: "R < 9007199254740992 * k" by simp
      have "s \<le> 53"
      proof (rule ccontr)
        assume "\<not> s \<le> 53"
        then have "54 \<le> s" by simp
        then have "(2::nat) ^ 54 \<le> 2 ^ s" by (simp only: power_increasing_iff)
        with Ple w show False by (simp add: P_def)
      qed
      then have "P dvd 2 ^ 53" unfolding P_def by (rule le_imp_power_dvd)
      then have "P dvd 9007199254740992 * k" by simp
      from dvd_step_le [OF dvdR this less] have step: "R + P \<le> 9007199254740992 * k" .
      from n25' True have nk: "25 * n + 8 * w = 225179981368524800 * k" by simp
      from wk True have "w * 24 = 25 * k" by simp
      with nP nk w have "16 * w < 25 * P" by linarith
      with step down nk show False by linarith
    qed
  qed
  from lo hi have "R div 9007199254740992 = k"
    by (intro div_nat_eqI) simp_all
  then show ?thesis
    by (simp add: int_mul_0_96_def rw R_def n_def k_def)
qed

section \<open>Properties of the encoder\<close>

subsection \<open>The quality ladder\<close>

lemma quality_loop_first_fit:
  assumes "\<forall>q'\<in>set pre. \<exists>d'. save_jpeg lib img q' = Inr d' \<and> target < length d'"
    and "save_jpeg lib img q = Inr d" and "length d \<le> target"
  shows "quality_loop lib target img (pre @ q # post) data calls =
           (Inr (Return d), calls @ map (Save img) (pre @ [q]))"
  using assms
proof (induction pre arbitrary: data calls)
  case Nil
  then show ?case by (simp add: jpg_bytes_def)
next
  case (Cons a pre)
  from Cons.prems(1) obtain d' where a: "save_jpeg lib img a = Inr d'" "target < length d'"
    by auto
  have "quality_loop lib target img ((a # pre) @ q # post) data calls =
          quality_loop lib target img (pre @ q # post) (Some d') (calls @ [Save img a])"
    using a by (simp add: jpg_bytes_def)
  also have "\<dots> = (Inr (Return d), (calls @ [Save img a]) @ map (Save img) (pre @ [q]))"
    using Cons.prems by (intro Cons.IH) auto
  finally show ?case by simp
qed

lemma quality_loop_all_over:
  assumes "\<forall>q\<in>set qs. \<exists>d. save_jpeg lib img q = Inr d \<and> target < length d"
  shows "\<exists>data'. quality_loop lib target img qs data calls =
           (Inr (Fallthrough data'), calls @ map (Save img) qs)"
  using assms
proof (induction qs arbitrary: data calls)
  case Nil
  then show ?case by simp
next
  case (Cons a qs)
  from Cons.prems obtain d where a: "save_jpeg lib img a = Inr d" "target < length d"
    by auto
  from Cons.prems have "\<forall>q\<in>set qs. \<exists>d. save_jpeg lib img q = Inr d \<and> target < length d"
    by simp
  from Cons.IH [OF this, of "Some d" "calls @ [Save img a]"] a
  show ?case by (simp add: jpg_bytes_def)
qed

lemma quality_loop_some_fit:
  assumes "\<forall>q\<in>set qs. \<exists>d. save_jpeg lib img q = Inr d"
    and "\<exists>q\<in>set qs. \<exists>d. save_jpeg lib img q = Inr d \<and> length d \<le> target"
  shows "\<exists>d calls'. quality_loop lib target img qs data calls = (Inr (Return d), calls') \<and>
           length d \<le> target"
  using assms
proof (induction qs arbitrary: data calls)
  case Nil
  then show ?case by simp
next
  case (Cons a qs)
  from Cons.prems(1) obtain d where a: "save_jpeg lib img a = Inr d" by auto
  show ?case
  proof (cases "length d \<le> target")
    case True
    with a show ?thesis by (simp add: jpg_bytes_def)
  next
    case False
    with a Cons.prems(2)
    have ex: "\<exists>q\<in>set qs. \<exists>d. save_jpeg lib img q = Inr d \<and> length d \<le> target"
      by auto
    from Cons.prems(1) have "\<forall>q\<in>set qs. \<exists>d. save_jpeg lib img q = Inr d" by simp
    from Cons.IH [OF this ex, of "Some d" "calls @ [Save img a]"] a False
    show ?thesis by (simp add: jpg_bytes_def)
  qed
qed

lemma quality_loop_Return:
  assumes "quality_loop lib target img qs data calls = (Inr (Return d), calls')"
  shows "length d \<le> target \<and>
         (\<exists>q. calls' \<noteq> [] \<and> last calls' = Save img q \<and> save_jpeg lib img q = Inr d)"
  using assms
  by (induction qs arbitrary: data calls)
     (auto simp: jpg_bytes_def split: sum.splits if_splits)

lemma quality_loop_Fallthrough:
  assumes "quality_loop lib target img qs data calls = (Inr (Fallthrough data'), calls')"
  shows "calls' = calls @ map (Save img) qs \<and>
         (\<forall>q\<in>set qs. \<exists>d. save_jpeg lib img q = Inr d \<and> target < length d)"
  using assms
proof (induction qs arbitrary: data calls)
  case Nil
  then show ?case by simp
next
  case (Cons a qs)
  from Cons.prems obtain d where a: "save_jpeg lib img a = Inr d" "target < length d"
    and rest: "quality_loop lib target img qs (Some d) (calls @ [Save img a]) =
                 (Inr (Fallthrough data'), calls')"
    by (auto simp: jpg_bytes_def split: sum.splits if_splits)
  from Cons.IH [OF rest] a show ?case by simp
qed

text \<open>
  C1. On an RGB image the ladder 95, 85, 75, 65, 55 is tried in that order: when the
  qualities before \<open>q\<close> in the ladder all give an encoding longer than the budget and
  \<open>q\<close> gives one within it, that encoding is returned, the encode attempts made are
  exactly those at the qualities up to \<open>q\<close>, in the ladder's order, and nothing after,
  and \<open>q\<close> is the highest quality of the ladder whose encoding is within the budget.
\<close>

theorem optimize_image_first_fit:
  assumes "mode_of lib img = ''RGB''"
    and "JPEG_QUALITIES = pre @ q # post"
    and "\<forall>q'\<in>set pre. \<exists>d'. save_jpeg lib img q' = Inr d' \<and> target < length d'"
    and "save_jpeg lib img q = Inr d" and "length d \<le> target"
  shows "optimize_image lib target img = (Inr d, map (Save img) (pre @ [q])) \<and>
         (\<forall>q'\<in>set JPEG_QUALITIES.
            (\<exists>d'. save_jpeg lib img q' = Inr d' \<and> length d' \<le> target) \<longrightarrow> q' \<le> q)"
proof -
  have run: "optimize_image lib target img = (Inr d, map (Save img) (pre @ [q]))"
    using quality_loop_first_fit [OF assms(3-5), of post None "[]"] assms(1,2)
    by (simp add: optimize_image_def to_rgb_def)
  have "sorted_wrt (>) JPEG_QUALITIES"
    by (simp add: JPEG_QUALITIES_def)
  then have below: "\<forall>x\<in>set post. x < q"
    by (simp add: assms(2) sorted_wrt_append)
  have "q' \<le> q" if "q' \<in> set JPEG_QUALITIES" "save_jpeg lib img q' = Inr d'"
    "length d' \<le> target" for q' d'
  proof -
    from assms(3) that(2,3) have "q' \<notin> set pre" by fastforce
    moreover from that(1) have "q' \<in> set (pre @ q # post)" by (simp only: assms(2))
    ultimately have "q' = q \<or> q' \<in> set post" by auto
    with below show ?thesis by auto
  qed
  with run show ?thesis by blast
qed

theorem optimize_image_first_fit_witness:
  "optimize_image toy_lib 7 (10, 10) =
     (Inr [0, 0, 0, 0, 0, 0, 0], [Save (10, 10) 95, Save (10, 10) 85, Save (10, 10) 75])"
  using optimize_image_first_fit
    [of toy_lib "(10, 10)" "[95, 85]" 75 "[65, 55]" 7 "[0, 0, 0, 0, 0, 0, 0]"]
  by (simp add: toy_lib_def JPEG_QUALITIES_def replicate_numeral)

text \<open>
  C2. When every ladder encoding of the (RGB-normalised) image exists and the one at
  quality 55 is no longer than the budget, \<open>optimize_image\<close> returns a buffer, and that
  buffer is no longer than the budget.
\<close>

theorem optimize_image_within_budget:
  assumes "to_rgb lib img [] = (Inr im, calls0)"
    and "\<forall>q\<in>set JPEG_QUALITIES. \<exists>d. save_jpeg lib im q = Inr d"
    and "save_jpeg lib im 55 = Inr d55" and "length d55 \<le> target"
  shows "\<exists>data calls. optimize_image lib target img = (Inr data, calls) \<and>
           length data \<le> target"
proof -
  have "55 \<in> set JPEG_QUALITIES" by (simp add: JPEG_QUALITIES_def)
  with assms(3,4)
  have "\<exists>q\<in>set JPEG_QUALITIES. \<exists>d. save_jpeg lib im q = Inr d \<and> length d \<le> target"
    by blast
  from quality_loop_some_fit [OF assms(2) this, of None calls0]
  obtain d calls' where
    "quality_loop lib target im JPEG_QUALITIES None calls0 = (Inr (Return d), calls')"
    and "length d \<le> target" by blast
  with assms(1) show ?thesis by (simp add: optimize_image_def)
qed

theorem optimize_image_within_budget_witness:
  "\<exists>data calls. optimize_image toy_lib 5 (10, 10) = (Inr data, calls) \<and> length data \<le> 5"
  using optimize_image_within_budget [of toy_lib "(10, 10)" "(10, 10)" "[]" "[0, 0, 0, 0, 0]" 5]
  by (simp add: toy_lib_def JPEG_QUALITIES_def to_rgb_def replicate_numeral)


subsection \<open>The downscale rounds\<close>

lemma to_rgb_no_save:
  assumes "to_rgb lib img [] = (r, calls0)"
  shows "filter is_Save calls0 = []" and "Save i q \<notin> set calls0"
  using assms by (auto simp: to_rgb_def split: if_splits)

lemma downscale_loop_Return:
  assumes "downscale_loop lib target n st calls = (Inr (Return d), calls')"
  shows "length d \<le> target \<and>
         (\<exists>im. calls' \<noteq> [] \<and> last calls' = Save im 65 \<and> save_jpeg lib im 65 = Inr d)"
  using assms
proof (induction lib target n st calls rule: downscale_loop.induct)
  case (1 lib target st calls)
  then show ?case by simp
next
  case (2 lib target n w h img data calls)
  let ?w = "int_mul_0_96 w" and ?h = "int_mul_0_96 h"
  from "2.prems" obtain img' d' where r: "resize_lanczos lib img (?w, ?h) = Inr img'"
    and e: "save_jpeg lib img' 65 = Inr d'"
    by (auto simp: jpg_bytes_def Let_def split: sum.splits)
  show ?case
  proof (cases "length d' \<le> target")
    case True
    with "2.prems" r e show ?thesis by (auto simp: jpg_bytes_def Let_def)
  next
    case False
    with "2.prems" r e
    have "downscale_loop lib target n (?w, ?h, img', Some d')
            (calls @ [Resize img (?w, ?h)] @ [Save img' 65]) = (Inr (Return d), calls')"
      by (simp add: jpg_bytes_def Let_def)
    moreover have "(save_jpeg lib img' 65, (calls @ [Resize img (?w, ?h)]) @ [Save img' 65]) =
        jpg_bytes lib img' 65 (calls @ [Resize img (?w, ?h)])"
      by (simp add: jpg_bytes_def)
    ultimately show ?thesis
      using "2.IH" [OF refl refl r _ e False] by (simp add: jpg_bytes_def)
  qed
qed

lemma downscale_loop_Fallthrough:
  assumes "downscale_loop lib target n (w, h, img, data) calls =
             (Inr (Fallthrough (w', h', img', data')), calls')"
  shows "\<exists>evs. calls' = calls @ evs \<and> length (filter is_Save evs) = n \<and>
           (\<forall>im q. Save im q \<in> set evs \<longrightarrow>
              (\<exists>d. save_jpeg lib im q = Inr d \<and> target < length d)) \<and>
           (0 < n \<longrightarrow> (\<exists>d im. data' = Some d \<and> last evs = Save im 65 \<and>
              save_jpeg lib im 65 = Inr d))"
  using assms
proof (induction n arbitrary: w h img data calls)
  case 0
  then show ?case by simp
next
  case (Suc n)
  let ?w = "int_mul_0_96 w" and ?h = "int_mul_0_96 h"
  from Suc.prems obtain im1 d1 where r: "resize_lanczos lib img (?w, ?h) = Inr im1"
    and e: "save_jpeg lib im1 65 = Inr d1" and over: "target < length d1"
    and rest: "downscale_loop lib target n (?w, ?h, im1, Some d1)
                 (calls @ [Resize img (?w, ?h), Save im1 65]) =
               (Inr (Fallthrough (w', h', img', data')), calls')"
    by (auto simp: jpg_bytes_def Let_def split: sum.splits if_splits)
  from Suc.IH [OF rest] obtain evs where evs:
    "calls' = (calls @ [Resize img (?w, ?h), Save im1 65]) @ evs"
    "length (filter is_Save evs) = n"
    "\<forall>im q. Save im q \<in> set evs \<longrightarrow> (\<exists>d. save_jpeg lib im q = Inr d \<and> target < length d)"
    "0 < n \<longrightarrow> (\<exists>d im. data' = Some d \<and> last evs = Save im 65 \<and> save_jpeg lib im 65 = Inr d)"
    by blast
  let ?evs = "[Resize img (?w, ?h), Save im1 65] @ evs"
  have 1: "calls' = calls @ ?evs" using evs(1) by simp
  have 2: "length (filter is_Save ?evs) = Suc n" using evs(2) by simp
  have 3: "\<forall>im q. Save im q \<in> set ?evs \<longrightarrow>
             (\<exists>d. save_jpeg lib im q = Inr d \<and> target < length d)"
    using evs(3) e over by auto
  have 4: "\<exists>d im. data' = Some d \<and> last ?evs = Save im 65 \<and> save_jpeg lib im 65 = Inr d"
  proof (cases n)
    case 0
    with rest have "data' = Some d1" "calls' = calls @ [Resize img (?w, ?h), Save im1 65]"
      by auto
    with evs(1) have "evs = []" by simp
    with \<open>data' = Some d1\<close> e show ?thesis by simp
  next
    case (Suc m)
    with evs(2) have "evs \<noteq> []" by auto
    with evs(4) Suc show ?thesis by simp
  qed
  from 1 2 3 4 show ?case by blast
qed

lemma toy_to_rgb: "to_rgb toy_lib (10, 10) [] = (Inr (10, 10), [])"
  by (simp add: toy_lib_def to_rgb_def)

lemma toy_size: "size_of toy_lib (10, 10) = (10, 10)"
  by (simp add: toy_lib_def)

lemma toy_rounds:
  "resize_lanczos toy_lib (10, 10) (9, 9) = Inr (9, 9)"
  "save_jpeg toy_lib (9, 9) 65 = Inr [0, 0, 0, 0, 0]"
  "resize_lanczos toy_lib (9, 9) (8, 8) = Inr (8, 8)"
  "save_jpeg toy_lib (8, 8) 65 = Inr [0, 0, 0, 0]"
  "resize_lanczos toy_lib (8, 8) (7, 7) = Inr (7, 7)"
  "save_jpeg toy_lib (7, 7) 65 = Inr [0, 0, 0]"
  by (simp_all add: toy_lib_def replicate_numeral)

lemma toy_run_2:
  "optimize_image toy_lib 2 (10, 10) =
     (Inr [0, 0, 0],
      [Save (10, 10) 95, Save (10, 10) 85, Save (10, 10) 75, Save (10, 10) 65, Save (10, 10) 55,
       Resize (10, 10) (9, 9), Save (9, 9) 65, Resize (9, 9) (8, 8), Save (8, 8) 65,
       Resize (8, 8) (7, 7), Save (7, 7) 65])"
  by (simp add: optimize_image_def to_rgb_def toy_lib_def JPEG_QUALITIES_def jpg_bytes_def
      numeral_3_eq_3 Let_def int_mul_0_96_samples replicate_numeral)




text \<open>
  C4. When the five ladder encodings all exist and are longer than the budget, the
  rounds of the downscale loop follow: round \<open>k\<close> resizes the image of the round
  before to the width and height of that round put through \<^verbatim>\<open>int(x * 0.96)\<close> once more,
  encodes the result at quality 65 and returns that encoding as soon as it is no longer
  than the budget; the third round is the last, and its encoding is returned whatever
  its length. For sizes below \<open>2 ^ 31\<close> each new width and height is the integer part
  of 0.96 times the one before.
\<close>

theorem optimize_image_downscale:
  assumes "to_rgb lib img [] = (Inr im, calls0)"
    and "size_of lib im = (w, h)"
    and "\<forall>q\<in>set JPEG_QUALITIES. \<exists>d. save_jpeg lib im q = Inr d \<and> target < length d"
    and "w1 = int_mul_0_96 w" and "h1 = int_mul_0_96 h"
    and "w2 = int_mul_0_96 w1" and "h2 = int_mul_0_96 h1"
    and "w3 = int_mul_0_96 w2" and "h3 = int_mul_0_96 h2"
    and "ladder = calls0 @ map (Save im) JPEG_QUALITIES"
  shows "(resize_lanczos lib im (w1, h1) = Inr i1 \<and> save_jpeg lib i1 65 = Inr d1 \<and>
          length d1 \<le> target \<longrightarrow>
            optimize_image lib target img =
              (Inr d1, ladder @ [Resize im (w1, h1), Save i1 65])) \<and>
         (resize_lanczos lib im (w1, h1) = Inr i1 \<and> save_jpeg lib i1 65 = Inr d1 \<and>
          target < length d1 \<and>
          resize_lanczos lib i1 (w2, h2) = Inr i2 \<and> save_jpeg lib i2 65 = Inr d2 \<and>
          length d2 \<le> target \<longrightarrow>
            optimize_image lib target img =
              (Inr d2, ladder @ [Resize im (w1, h1), Save i1 65,
                                 Resize i1 (w2, h2), Save i2 65])) \<and>
         (resize_lanczos lib im (w1, h1) = Inr i1 \<and> save_jpeg lib i1 65 = Inr d1 \<and>
          target < length d1 \<and>
          resize_lanczos lib i1 (w2, h2) = Inr i2 \<and> save_jpeg lib i2 65 = Inr d2 \<and>
          target < length d2 \<and>
          resize_lanczos lib i2 (w3, h3) = Inr i3 \<and> save_jpeg lib i3 65 = Inr d3 \<longrightarrow>
            optimize_image lib target img =
              (Inr d3, ladder @ [Resize im (w1, h1), Save i1 65,
                                 Resize i1 (w2, h2), Save i2 65,
                                 Resize i2 (w3, h3), Save i3 65])) \<and>
         (w < 2 ^ 31 \<and> h < 2 ^ 31 \<longrightarrow>
            w1 = w * 24 div 25 \<and> h1 = h * 24 div 25 \<and>
            w2 = w1 * 24 div 25 \<and> h2 = h1 * 24 div 25 \<and>
            w3 = w2 * 24 div 25 \<and> h3 = h2 * 24 div 25)"
proof -
  have sizes: "w1 = w * 24 div 25 \<and> h1 = h * 24 div 25 \<and>
      w2 = w1 * 24 div 25 \<and> h2 = h1 * 24 div 25 \<and>
      w3 = w2 * 24 div 25 \<and> h3 = h2 * 24 div 25"
    if "w < 2 ^ 31" "h < 2 ^ 31"
  proof -
    have 1: "w1 = w * 24 div 25" "h1 = h * 24 div 25"
      using that assms(4,5) by (simp_all add: int_mul_0_96_floor)
    with that have "w1 < 2 ^ 31" "h1 < 2 ^ 31" by simp_all
    then have 2: "w2 = w1 * 24 div 25" "h2 = h1 * 24 div 25"
      using assms(6,7) by (simp_all add: int_mul_0_96_floor)
    with \<open>w1 < 2 ^ 31\<close> \<open>h1 < 2 ^ 31\<close> have "w2 < 2 ^ 31" "h2 < 2 ^ 31" by simp_all
    then have "w3 = w2 * 24 div 25" "h3 = h2 * 24 div 25"
      using assms(8,9) by (simp_all add: int_mul_0_96_floor)
    with 1 2 show ?thesis by simp
  qed
  from quality_loop_all_over [OF assms(3), of None calls0]
  obtain data' where
    ql: "quality_loop lib target im JPEG_QUALITIES None calls0 = (Inr (Fallthrough data'), ladder)"
    using assms(10) by blast
  have opt: "optimize_image lib target img =
      (case downscale_loop lib target 3 (w, h, im, data') ladder of
         (Inl e, calls2) \<Rightarrow> (Inl e, calls2)
       | (Inr (Return d), calls2) \<Rightarrow> (Inr d, calls2)
       | (Inr (Fallthrough (w', h', im', data')), calls2) \<Rightarrow>
           (case data' of None \<Rightarrow> (Inl UnboundLocalError, calls2) | Some d \<Rightarrow> (Inr d, calls2)))"
    using assms(1,2) ql by (simp add: optimize_image_def)
  have r1: "optimize_image lib target img = (Inr d1, ladder @ [Resize im (w1, h1), Save i1 65])"
    if "resize_lanczos lib im (w1, h1) = Inr i1" "save_jpeg lib i1 65 = Inr d1"
      "length d1 \<le> target"
    using that assms(4,5) by (simp add: opt numeral_3_eq_3 jpg_bytes_def Let_def)
  have r2: "optimize_image lib target img =
      (Inr d2, ladder @ [Resize im (w1, h1), Save i1 65, Resize i1 (w2, h2), Save i2 65])"
    if "resize_lanczos lib im (w1, h1) = Inr i1" "save_jpeg lib i1 65 = Inr d1"
      "target < length d1" "resize_lanczos lib i1 (w2, h2) = Inr i2"
      "save_jpeg lib i2 65 = Inr d2" "length d2 \<le> target"
    using that assms(4-7) by (simp add: opt numeral_3_eq_3 jpg_bytes_def Let_def)
  have r3: "optimize_image lib target img =
      (Inr d3, ladder @ [Resize im (w1, h1), Save i1 65, Resize i1 (w2, h2), Save i2 65,
                         Resize i2 (w3, h3), Save i3 65])"
    if "resize_lanczos lib im (w1, h1) = Inr i1" "save_jpeg lib i1 65 = Inr d1"
      "target < length d1" "resize_lanczos lib i1 (w2, h2) = Inr i2"
      "save_jpeg lib i2 65 = Inr d2" "target < length d2"
      "resize_lanczos lib i2 (w3, h3) = Inr i3" "save_jpeg lib i3 65 = Inr d3"
    using that assms(4-9) by (simp add: opt numeral_3_eq_3 jpg_bytes_def Let_def)
  from r1 r2 r3 sizes show ?thesis by blast
qed

theorem optimize_image_downscale_witness:
  "optimize_image toy_lib 4 (10, 10) =
     (Inr [0, 0, 0, 0],
      [Save (10, 10) 95, Save (10, 10) 85, Save (10, 10) 75, Save (10, 10) 65, Save (10, 10) 55,
       Resize (10, 10) (9, 9), Save (9, 9) 65, Resize (9, 9) (8, 8), Save (8, 8) 65])"
proof -
  have over: "\<forall>q\<in>set JPEG_QUALITIES. \<exists>d. save_jpeg toy_lib (10, 10) q = Inr d \<and> 4 < length d"
    by (simp add: toy_lib_def JPEG_QUALITIES_def)
  have lad: "map (Save (10, 10)) [95, 85, 75, 65, 55] =
      [] @ map (Save (10 :: nat, 10 :: nat)) JPEG_QUALITIES"
    by (simp add: JPEG_QUALITIES_def)
  note s = int_mul_0_96_samples [symmetric]
  from optimize_image_downscale [OF toy_to_rgb toy_size over s(1) s(1) s(2) s(2) s(3) s(3) lad,
      of "(9, 9)" "[0, 0, 0, 0, 0]" "(8, 8)" "[0, 0, 0, 0]"] toy_rounds
  show ?thesis by simp
qed

text \<open>
  C5. Whatever \<open>optimize_image\<close> returns is the output of the encode attempt it made
  last, and its length has been compared with the budget: either it is no longer than
  the budget, or all eight attempts were made, each gave an encoding longer than the
  budget, and this is the final best-effort return.
\<close>

theorem optimize_image_measured:
  assumes "optimize_image lib target img = (Inr data, calls)"
  shows "(\<exists>im q. calls \<noteq> [] \<and> last calls = Save im q \<and> save_jpeg lib im q = Inr data) \<and>
         (length data \<le> target \<or>
          (length (filter is_Save calls) = 8 \<and>
           (\<forall>im q. Save im q \<in> set calls \<longrightarrow>
              (\<exists>d. save_jpeg lib im q = Inr d \<and> target < length d))))"
proof -
  from assms obtain im calls0 where rgb: "to_rgb lib img [] = (Inr im, calls0)"
    by (auto simp: optimize_image_def split: prod.splits sum.splits)
  note calls0 = to_rgb_no_save [OF rgb]
  obtain r1 calls1 where ql: "quality_loop lib target im JPEG_QUALITIES None calls0 = (r1, calls1)"
    by (cases "quality_loop lib target im JPEG_QUALITIES None calls0")
  show ?thesis
  proof (cases r1)
    case (Inl e)
    with assms rgb ql show ?thesis by (simp add: optimize_image_def)
  next
    case (Inr f)
    show ?thesis
    proof (cases f)
      case (Return d)
      with assms rgb ql Inr have "data = d" "calls = calls1" by (simp_all add: optimize_image_def)
      with quality_loop_Return [of lib target im JPEG_QUALITIES None calls0 d calls1] ql Inr Return
      show ?thesis by auto
    next
      case (Fallthrough data0)
      from quality_loop_Fallthrough [of lib target im JPEG_QUALITIES None calls0 data0 calls1]
        ql Inr Fallthrough
      have l1: "calls1 = calls0 @ map (Save im) JPEG_QUALITIES"
        and over1: "\<forall>q\<in>set JPEG_QUALITIES. \<exists>d. save_jpeg lib im q = Inr d \<and> target < length d"
        by simp_all
      obtain w h where sz: "size_of lib im = (w, h)" by (cases "size_of lib im")
      obtain r2 calls2 where
        dl: "downscale_loop lib target 3 (w, h, im, data0) calls1 = (r2, calls2)"
        by (cases "downscale_loop lib target 3 (w, h, im, data0) calls1")
      have opt: "optimize_image lib target img =
          (case (r2, calls2) of
             (Inl e, calls2) \<Rightarrow> (Inl e, calls2)
           | (Inr (Return d), calls2) \<Rightarrow> (Inr d, calls2)
           | (Inr (Fallthrough (w', h', im', data')), calls2) \<Rightarrow>
               (case data' of None \<Rightarrow> (Inl UnboundLocalError, calls2)
                | Some d \<Rightarrow> (Inr d, calls2)))"
        using rgb ql Inr Fallthrough sz dl by (simp add: optimize_image_def)
      show ?thesis
      proof (cases r2)
        case (Inl e)
        with assms opt show ?thesis by simp
      next
        case r2: (Inr f2)
        show ?thesis
        proof (cases f2)
          case (Return d)
          with assms opt r2 have "data = d" "calls = calls2" by simp_all
          with downscale_loop_Return [of lib target 3 "(w, h, im, data0)" calls1 d calls2]
            dl r2 Return
          show ?thesis by auto
        next
          case ft: (Fallthrough st)
          obtain w' h' im' data' where st: "st = (w', h', im', data')" by (cases st) auto
          from downscale_loop_Fallthrough
            [of lib target 3 w h im data0 calls1 w' h' im' data' calls2] dl r2 ft st
          obtain evs d i where evs: "calls2 = calls1 @ evs" "length (filter is_Save evs) = 3"
            "\<forall>im q. Save im q \<in> set evs \<longrightarrow>
               (\<exists>d. save_jpeg lib im q = Inr d \<and> target < length d)"
            "data' = Some d" "last evs = Save i 65" "save_jpeg lib i 65 = Inr d"
            by auto
          from assms opt r2 ft st evs(4) have res: "data = d" "calls = calls2" by simp_all
          from evs(2) have ne: "evs \<noteq> []" by auto
          have a: "\<exists>im q. calls \<noteq> [] \<and> last calls = Save im q \<and> save_jpeg lib im q = Inr data"
            using res evs(1,5,6) ne by auto
          have b: "length (filter is_Save calls) = 8"
            using res evs(1,2) l1 calls0(1) by (simp add: JPEG_QUALITIES_def)
          have c: "\<forall>im q. Save im q \<in> set calls \<longrightarrow>
                     (\<exists>d. save_jpeg lib im q = Inr d \<and> target < length d)"
            using res evs(1,3) l1 calls0(2) over1 by auto
          from a b c show ?thesis by blast
        qed
      qed
    qed
  qed
qed

theorem optimize_image_measured_witness:
  "\<exists>data calls. optimize_image toy_lib 2 (10, 10) = (Inr data, calls) \<and> \<not> length data \<le> 2 \<and>
     length (filter is_Save calls) = 8 \<and>
     (\<exists>im q. last calls = Save im q \<and> save_jpeg toy_lib im q = Inr data)"
  using optimize_image_measured [OF toy_run_2] toy_run_2 by simp

section \<open>Properties of the trimmers\<close>

subsection \<open>The library operations\<close>


lemma wf_row_length:
  assumes "wf_image img" "y < height img"
  shows "length (rows img ! y) = width img"
  using assms by (simp add: wf_image_def)

lemma Image_new_simps [simp]:
  "width (Image_new (w, h) c) = w" "height (Image_new (w, h) c) = h"
  "rows (Image_new (w, h) c) = replicate h (replicate w c)"
  by (simp_all add: Image_new_def)

lemma wf_Image_new: "wf_image (Image_new (w, h) c)"
  by (simp add: wf_image_def)

lemma chop_size [simp]:
  "width (chop f a b) = min (width a) (width b)"
  "height (chop f a b) = min (height a) (height b)"
  by (simp_all add: chop_def)

lemma chop_pixel:
  assumes "wf_image a" "wf_image b" "width b = width a" "height b = height a"
    and "x < width a" "y < height a"
  shows "rows (chop f a b) ! y ! x = map_pixel2 f (rows a ! y ! x) (rows b ! y ! x)"
proof -
  have ly: "y < length (rows a)" "y < length (rows b)"
    using assms by (simp_all add: wf_image_def)
  have lx: "x < length (rows a ! y)" "x < length (rows b ! y)"
    using assms wf_row_length [of a y] wf_row_length [of b y] by simp_all
  show ?thesis using ly lx by (simp add: chop_def)
qed

lemma chop_new_pixel:
  assumes "wf_image a" "x < width a" "y < height a"
  shows "rows (chop f a (Image_new (width a, height a) c)) ! y ! x =
           map_pixel2 f (rows a ! y ! x) c"
  using chop_pixel [OF assms(1) wf_Image_new, of "width a" "height a" c x y f] assms(2,3)
  by simp

lemma filter_upt_interval:
  assumes "a \<le> b" "b \<le> h"
  shows "filter (\<lambda>y. a \<le> y \<and> y < b) [0..<h] = [a..<b]"
proof -
  have "[0..<h] = [0..<a] @ [a..<b] @ [b..<h]"
    using assms by (metis le_add_diff_inverse le_trans upt_add_eq_append zero_le)
  moreover have "filter (\<lambda>y. a \<le> y \<and> y < b) [0..<a] = []" by simp
  moreover have "filter (\<lambda>y. a \<le> y \<and> y < b) [b..<h] = []" by simp
  moreover have "filter (\<lambda>y. a \<le> y \<and> y < b) [a..<b] = [a..<b]" by simp
  ultimately show ?thesis by simp
qed

lemma getbbox_cong:
  assumes "width a = width b" "height a = height b"
    and "\<And>x y. x < width a \<Longrightarrow> y < height a \<Longrightarrow>
           nonzero (rows a ! y ! x) = nonzero (rows b ! y ! x)"
  shows "getbbox a = getbbox b"
proof -
  have "filter (\<lambda>y. \<exists>x\<in>set [0..<width a]. nonzero (rows a ! y ! x)) [0..<height a] =
        filter (\<lambda>y. \<exists>x\<in>set [0..<width b]. nonzero (rows b ! y ! x)) [0..<height b]"
    using assms by (intro filter_cong) auto
  moreover
  have "filter (\<lambda>x. \<exists>y\<in>set [0..<height a]. nonzero (rows a ! y ! x)) [0..<width a] =
        filter (\<lambda>x. \<exists>y\<in>set [0..<height b]. nonzero (rows b ! y ! x)) [0..<width b]"
    using assms by (intro filter_cong) auto
  ultimately show ?thesis by (simp add: getbbox_def)
qed

lemma getbbox_None:
  assumes "\<And>x y. x < width img \<Longrightarrow> y < height img \<Longrightarrow> \<not> nonzero (rows img ! y ! x)"
  shows "getbbox img = None"
proof -
  have "filter (\<lambda>y. \<exists>x\<in>set [0..<width img]. nonzero (rows img ! y ! x)) [0..<height img] = []"
    using assms by (auto simp: filter_empty_conv)
  then show ?thesis by (simp add: getbbox_def)
qed

lemma getbbox_block:
  assumes "bx0 < bx1" "bx1 \<le> width img" "by0 < by1" "by1 \<le> height img"
    and "\<And>x y. x < width img \<Longrightarrow> y < height img \<Longrightarrow>
           nonzero (rows img ! y ! x) \<longleftrightarrow> (bx0 \<le> x \<and> x < bx1 \<and> by0 \<le> y \<and> y < by1)"
  shows "getbbox img = Some (int bx0, int by0, int bx1, int by1)"
proof -
  have "filter (\<lambda>y. \<exists>x\<in>set [0..<width img]. nonzero (rows img ! y ! x)) [0..<height img] =
        filter (\<lambda>y. by0 \<le> y \<and> y < by1) [0..<height img]"
  proof (intro filter_cong refl)
    fix y assume "y \<in> set [0..<height img]"
    then have y: "y < height img" by simp
    show "(\<exists>x\<in>set [0..<width img]. nonzero (rows img ! y ! x)) \<longleftrightarrow> (by0 \<le> y \<and> y < by1)"
    proof
      assume "\<exists>x\<in>set [0..<width img]. nonzero (rows img ! y ! x)"
      then show "by0 \<le> y \<and> y < by1" using assms(5) y by auto
    next
      assume "by0 \<le> y \<and> y < by1"
      moreover have "bx0 < width img" using assms(1,2) by simp
      ultimately have "nonzero (rows img ! y ! bx0)" using assms(1,5) y by simp
      with \<open>bx0 < width img\<close> show "\<exists>x\<in>set [0..<width img]. nonzero (rows img ! y ! x)"
        by auto
    qed
  qed
  then have ys: "filter (\<lambda>y. \<exists>x\<in>set [0..<width img]. nonzero (rows img ! y ! x))
      [0..<height img] = [by0..<by1]"
    using assms(3,4) by (simp add: filter_upt_interval)
  have "filter (\<lambda>x. \<exists>y\<in>set [0..<height img]. nonzero (rows img ! y ! x)) [0..<width img] =
        filter (\<lambda>x. bx0 \<le> x \<and> x < bx1) [0..<width img]"
  proof (intro filter_cong refl)
    fix x assume "x \<in> set [0..<width img]"
    then have x: "x < width img" by simp
    show "(\<exists>y\<in>set [0..<height img]. nonzero (rows img ! y ! x)) \<longleftrightarrow> (bx0 \<le> x \<and> x < bx1)"
    proof
      assume "\<exists>y\<in>set [0..<height img]. nonzero (rows img ! y ! x)"
      then show "bx0 \<le> x \<and> x < bx1" using assms(5) x by auto
    next
      assume "bx0 \<le> x \<and> x < bx1"
      moreover have "by0 < height img" using assms(3,4) by simp
      ultimately have "nonzero (rows img ! by0 ! x)" using assms(3,5) x by simp
      with \<open>by0 < height img\<close> show "\<exists>y\<in>set [0..<height img]. nonzero (rows img ! y ! x)"
        by auto
    qed
  qed
  then have xs: "filter (\<lambda>x. \<exists>y\<in>set [0..<height img]. nonzero (rows img ! y ! x))
      [0..<width img] = [bx0..<bx1]"
    using assms(1,2) by (simp add: filter_upt_interval)
  have "hd [bx0..<bx1] = bx0" "hd [by0..<by1] = by0"
    "int (last [bx0..<bx1]) + 1 = int bx1" "int (last [by0..<by1]) + 1 = int by1"
    using assms(1,3) by (simp_all add: hd_upt last_upt)
  moreover have "[by0..<by1] \<noteq> []" using assms(3) by simp
  ultimately show ?thesis
    unfolding getbbox_def Let_def ys xs by simp
qed

lemma crop_full:
  assumes "wf_image img"
  shows "crop img (0, 0, int (width img), int (height img)) = Inr img"
proof -
  have "map (\<lambda>y. map (\<lambda>x. pixel_at img x y) [0..int (width img) - 1]) [0..int (height img) - 1] =
        rows img"
  proof (rule nth_equalityI)
    show "length (map (\<lambda>y. map (\<lambda>x. pixel_at img x y) [0..int (width img) - 1])
        [0..int (height img) - 1]) = length (rows img)"
      using assms by (simp add: wf_image_def)
  next
    fix y assume "y < length (map (\<lambda>y. map (\<lambda>x. pixel_at img x y) [0..int (width img) - 1])
        [0..int (height img) - 1])"
    then have y: "y < height img" by simp
    then have ny: "[0..int (height img) - 1] ! y = int y" by (simp add: nth_upto)
    have "map (\<lambda>x. pixel_at img x (int y)) [0..int (width img) - 1] = rows img ! y"
    proof (rule nth_equalityI)
      show "length (map (\<lambda>x. pixel_at img x (int y)) [0..int (width img) - 1]) =
          length (rows img ! y)"
        using wf_row_length [OF assms y] by simp
    next
      fix x assume "x < length (map (\<lambda>x. pixel_at img x (int y)) [0..int (width img) - 1])"
      then have x: "x < width img" by simp
      then have "[0..int (width img) - 1] ! x = int x" by (simp add: nth_upto)
      with x y show "map (\<lambda>x. pixel_at img x (int y)) [0..int (width img) - 1] ! x =
          rows img ! y ! x"
        by (simp add: pixel_at_def)
    qed
    with y ny show "map (\<lambda>y. map (\<lambda>x. pixel_at img x y) [0..int (width img) - 1])
        [0..int (height img) - 1] ! y = rows img ! y"
      by simp
  qed
  then show ?thesis by (simp add: crop_def)
qed



lemma uint_clip8: "uint (clip8 t) = max 0 (min 255 t)"
proof -
  have "uint (word_of_int t :: byte) = t" if "0 < t" "t < 255"
    using that by (simp add: uint_word_of_int_eq take_bit_int_eq_self)
  then show ?thesis by (auto simp: clip8_def)
qed

lemma uint_byte_le: "uint (c :: byte) \<le> 255"
  using uint_bounded [of c] by simp

lemma uint_difference_channel: "uint (difference_channel a b) = \<bar>uint a - uint b\<bar>"
proof -
  have "0 \<le> uint a" "0 \<le> uint b" "uint a \<le> 255" "uint b \<le> 255"
    by (simp_all add: uint_byte_le)
  then have "max 0 (min 255 \<bar>uint a - uint b\<bar>) = \<bar>uint a - uint b\<bar>"
    by linarith
  then show ?thesis by (simp add: difference_channel_def uint_clip8)
qed

lemma difference_channel_same [simp]: "difference_channel a a = 0"
  by (simp add: difference_channel_def clip8_def)

lemma c_trunc_of_int [simp]: "c_trunc (of_int k) = k"
  by (simp add: c_trunc_def)

lemma add_channel_self: "add_channel 2 (- 100) d d = clip8 (uint d - 100)"
proof -
  have "(of_int (uint d + uint d) / 2 + of_int (- 100) :: rat) = of_int (uint d - 100)"
    by simp
  then show ?thesis unfolding add_channel_def by (simp only: c_trunc_of_int)
qed

lemma uint_add_channel_self: "uint (add_channel 2 (- 100) d d) = max (uint d - 100) 0"
  using uint_byte_le [of d] by (simp add: add_channel_self uint_clip8)

lemma luma_black [simp]: "luma (0, 0, 0) = 0"
  by (simp add: luma_def)

lemma blend_channel_zero [simp]: "blend_channel alpha 0 0 = 0"
  by (simp add: blend_channel_def)

subsection \<open>\<^verbatim>\<open>crop_white_space\<close>\<close>

lemma uniform_rows:
  assumes "wf_image img" "\<forall>r\<in>set (rows img). \<forall>p\<in>set r. p = c"
  shows "rows img = replicate (height img) (replicate (width img) c)"
proof -
  have "r = replicate (width img) c" if "r \<in> set (rows img)" for r
  proof -
    from that assms have "length r = width img" "\<forall>p\<in>set r. p = c"
      by (auto simp: wf_image_def)
    then show ?thesis by (metis replicate_length_same)
  qed
  then have "replicate (length (rows img)) (replicate (width img) c) = rows img"
    by (intro replicate_length_same) auto
  with assms(1) show ?thesis by (simp add: wf_image_def)
qed

lemma chop_replicate:
  "chop f (Image_new (w, h) c) (Image_new (w, h) c') = Image_new (w, h) (map_pixel2 f c c')"
  by (simp add: chop_def Image_new_def zip_replicate)

lemma Contrast_enhance_black:
  assumes "0 < w" "0 < h"
  shows "Contrast_enhance (Image_new (w, h) (0, 0, 0)) alpha = Inr (Image_new (w, h) (0, 0, 0))"
proof -
  have "sum_list (map luma xs) = 0" if "\<forall>p\<in>set xs. p = (0, 0, 0)" for xs
    using that by (induction xs) simp_all
  then have "sum_list (map luma (concat (replicate h (replicate w (0, 0, 0))))) = 0"
    by auto
  moreover have "\<lfloor>1 / 2 :: rat\<rfloor> = 0"
    by (rule floor_unique) simp_all
  ultimately show ?thesis
    using assms
    by (simp add: Contrast_enhance_def Image_blend_def chop_replicate map_pixel2_def Let_def)
qed

lemma getbbox_black: "getbbox (Image_new (w, h) (0, 0, 0)) = None"
  by (rule getbbox_None) (simp add: nonzero_def)

lemma crop_white_space_uniform:
  assumes "wf_image img" "0 < width img" "0 < height img"
    and "\<forall>r\<in>set (rows img). \<forall>p\<in>set r. p = c"
  shows "crop_white_space img = Inr img"
proof -
  have img: "img = Image_new (width img, height img) c"
    using uniform_rows [OF assms(1,4)] by (simp add: Image_new_def)
  have px: "getpixel img (0, 0) = Inr c"
    using assms(2,3) uniform_rows [OF assms(1,4)] by (simp add: getpixel_def)
  have "ImageChops_difference img (Image_new (width img, height img) c) =
          Image_new (width img, height img) (0, 0, 0)"
    by (subst img) (simp add: ImageChops_difference_def chop_replicate map_pixel2_def)
  then have "crop_white_space_diff img = Inr (Image_new (width img, height img) (0, 0, 0))"
    using px assms(2,3) by (simp add: crop_white_space_diff_def Contrast_enhance_black)
  then show ?thesis by (simp add: crop_white_space_def getbbox_black)
qed

text \<open>
  C6. On a uniform image (every pixel of the one colour \<open>c\<close>, at least one pixel)
  \<open>crop_white_space\<close> does not raise and returns the image itself, so with its
  dimensions; and when the box it computes is the whole image it does not raise either,
  and again returns the image.
\<close>

theorem crop_white_space_blank:
  assumes "wf_image img"
  shows "(0 < width img \<and> 0 < height img \<and> (\<forall>r\<in>set (rows img). \<forall>p\<in>set r. p = c) \<longrightarrow>
            crop_white_space img = Inr img) \<and>
         (crop_white_space_diff img = Inr d \<and>
          getbbox d = Some (0, 0, int (width img), int (height img)) \<longrightarrow>
            crop_white_space img = Inr img)"
  using crop_white_space_uniform [OF assms, of c] crop_full [OF assms]
  by (simp add: crop_white_space_def)

lemma wf_fixtures:
  "wf_image blank_image" "wf_image full_box_image" "wf_image dot_image"
  "wf_image grey_pixel_image"
  by (simp_all add: wf_image_def blank_image_def full_box_image_def dot_image_def
      grey_pixel_image_def)

theorem crop_white_space_blank_witness:
  "crop_white_space blank_image = Inr blank_image \<and>
   crop_white_space full_box_image = Inr full_box_image"
proof -
  have "0 < width blank_image \<and> 0 < height blank_image \<and>
      (\<forall>r\<in>set (rows blank_image). \<forall>p\<in>set r. p = (10, 20, 30))"
    by (simp add: blank_image_def)
  with crop_white_space_blank [OF wf_fixtures(1), of "(10, 20, 30)"]
  have 1: "crop_white_space blank_image = Inr blank_image" by blast
  have "crop_white_space_diff full_box_image =
      Inr \<lparr>width = 2, height = 2, rows = [[(0, 0, 0), white], [white, white]]\<rparr>"
    by code_simp
  moreover have "getbbox \<lparr>width = 2, height = 2, rows = [[(0, 0, 0), white], [white, white]]\<rparr> =
      Some (0, 0, int (width full_box_image), int (height full_box_image))"
    by code_simp
  ultimately have 2: "crop_white_space full_box_image = Inr full_box_image"
    using crop_white_space_blank [OF wf_fixtures(2)] by blast
  from 1 2 show ?thesis by simp
qed

lemma wf_chop:
  assumes "wf_image a" "wf_image b" "width b = width a" "height b = height a"
  shows "wf_image (chop f a b)"
proof -
  have "length r = width a" if "r \<in> set (rows (chop f a b))" for r
  proof -
    from that obtain ra rb where "ra \<in> set (rows a)" "rb \<in> set (rows b)"
      and r: "r = map2 (map_pixel2 f) ra rb"
      by (auto simp: chop_def dest: set_zip_leftD set_zip_rightD)
    with assms show ?thesis by (simp add: wf_image_def)
  qed
  with assms show ?thesis by (simp add: wf_image_def chop_def)
qed

text \<open>
  C8, as amended. \<open>crop_white_space\<close> takes the pixel at (0, 0) as the background
  colour: the difference image \<open>diff\<close> has the size of the input and holds, in each
  channel of each pixel, the absolute difference between the input and that colour;
  the bounding box is extracted from \<open>diff\<close> after the contrast amplification by 3.0 of
  line 90, not from \<open>diff\<close> itself. The two boxes differ when a pixel that differs
  little from the background stands beside pixels that differ much: the amplification
  makes it black.
\<close>

theorem crop_white_space_background:
  assumes "wf_image img" "0 < width img" "0 < height img"
    and "c = rows img ! 0 ! 0"
    and "diff = ImageChops_difference img (Image_new (width img, height img) c)"
  shows "getpixel img (0, 0) = Inr c \<and>
         crop_white_space img =
           (case Contrast_enhance diff 3 of
              Inl e \<Rightarrow> Inl e
            | Inr amplified \<Rightarrow>
                (case getbbox amplified of Some bbox \<Rightarrow> crop img bbox | None \<Rightarrow> Inr img)) \<and>
         width diff = width img \<and> height diff = height img \<and>
         (\<forall>x<width img. \<forall>y<height img.
            uint (fst (rows diff ! y ! x)) = \<bar>uint (fst (rows img ! y ! x)) - uint (fst c)\<bar> \<and>
            uint (fst (snd (rows diff ! y ! x))) =
              \<bar>uint (fst (snd (rows img ! y ! x))) - uint (fst (snd c))\<bar> \<and>
            uint (snd (snd (rows diff ! y ! x))) =
              \<bar>uint (snd (snd (rows img ! y ! x))) - uint (snd (snd c))\<bar>)"
proof -
  have px: "getpixel img (0, 0) = Inr c"
    using assms(2-4) by (simp add: getpixel_def)
  then have run: "crop_white_space img =
           (case Contrast_enhance diff 3 of
              Inl e \<Rightarrow> Inl e
            | Inr amplified \<Rightarrow>
                (case getbbox amplified of Some bbox \<Rightarrow> crop img bbox | None \<Rightarrow> Inr img))"
    using assms(5) by (simp add: crop_white_space_def crop_white_space_diff_def)
  have sz: "width diff = width img" "height diff = height img"
    using assms(5) by (simp_all add: ImageChops_difference_def)
  have "rows diff ! y ! x = map_pixel2 difference_channel (rows img ! y ! x) c"
    if "x < width img" "y < height img" for x y
    using chop_new_pixel [OF assms(1) that] assms(5) by (simp add: ImageChops_difference_def)
  then have "uint (fst (rows diff ! y ! x)) = \<bar>uint (fst (rows img ! y ! x)) - uint (fst c)\<bar> \<and>
            uint (fst (snd (rows diff ! y ! x))) =
              \<bar>uint (fst (snd (rows img ! y ! x))) - uint (fst (snd c))\<bar> \<and>
            uint (snd (snd (rows diff ! y ! x))) =
              \<bar>uint (snd (snd (rows img ! y ! x))) - uint (snd (snd c))\<bar>"
    if "x < width img" "y < height img" for x y
    using that by (simp add: map_pixel2_def uint_difference_channel)
  with px run sz show ?thesis by blast
qed

theorem crop_white_space_background_witness:
  "getpixel dot_image (0, 0) = Inr white \<and>
   uint (fst (rows (ImageChops_difference dot_image (Image_new (3, 2) white)) ! 0 ! 1)) = 255 \<and>
   crop_white_space dot_image = Inr \<lparr>width = 1, height = 1, rows = [[(0, 0, 0)]]\<rparr>"
proof -
  have d: "width dot_image = 3" "height dot_image = 2" "rows dot_image ! 0 ! 0 = white"
    "rows dot_image ! 0 ! 1 = (0, 0, 0)"
    by (simp_all add: dot_image_def)
  from crop_white_space_background [OF wf_fixtures(3), of white
      "ImageChops_difference dot_image (Image_new (3, 2) white)"] d
  have "getpixel dot_image (0, 0) = Inr white"
    and "uint (fst (rows (ImageChops_difference dot_image (Image_new (3, 2) white)) ! 0 ! 1)) =
      \<bar>uint (fst (rows dot_image ! 0 ! 1)) - uint (fst white)\<bar>"
    by simp_all
  moreover have "crop_white_space dot_image = Inr \<lparr>width = 1, height = 1, rows = [[(0, 0, 0)]]\<rparr>"
    by code_simp
  ultimately show ?thesis by (simp add: white_def dot_image_def)
qed

theorem crop_white_space_box_after_contrast:
  "getpixel faint_step_image (0, 0) = Inr (0, 0, 0) \<and>
   getbbox (ImageChops_difference faint_step_image (Image_new (4, 1) (0, 0, 0))) =
     Some (1, 0, 4, 1) \<and>
   crop_white_space_diff faint_step_image =
     Inr \<lparr>width = 4, height = 1,
          rows = [[(0, 0, 0), (0, 0, 0), (255, 255, 255), (255, 255, 255)]]\<rparr> \<and>
   crop_white_space faint_step_image = crop faint_step_image (2, 0, 4, 1) \<and>
   crop_white_space faint_step_image \<noteq> crop faint_step_image (1, 0, 4, 1)"
  by code_simp

subsection \<open>\<^verbatim>\<open>trim_white_space\<close>\<close>

lemma wf_fixtures2:
  "wf_image block_image" "wf_image light_block_image" "wf_image faint_image"
  "wf_image pale_image" "wf_image far_light_image"
  by (simp_all add: wf_image_def block_image_def light_block_image_def faint_image_def
      pale_image_def far_light_image_def)

lemma trim_diff_size [simp]:
  "width (trim_white_space_diff img) = width img"
  "height (trim_white_space_diff img) = height img"
  by (simp_all add: trim_white_space_diff_def ImageChops_add_def ImageChops_difference_def Let_def)

lemma trim_diff_pixel:
  assumes "wf_image img" "x < width img" "y < height img"
    and "D = ImageChops_difference img (Image_new (width img, height img) (255, 255, 255))"
  shows "rows (trim_white_space_diff img) ! y ! x =
           map_pixel (\<lambda>d. add_channel 2 (- 100) d d) (rows D ! y ! x)"
    and "rows D ! y ! x = map_pixel (\<lambda>c. difference_channel c 255) (rows img ! y ! x)"
proof -
  have wfD: "wf_image D" "width D = width img" "height D = height img"
    using assms(1,4) by (simp_all add: ImageChops_difference_def wf_chop wf_Image_new)
  have "trim_white_space_diff img = chop (add_channel 2 (- 100)) D D"
    using assms(4) by (simp add: trim_white_space_diff_def ImageChops_add_def Let_def)
  then show "rows (trim_white_space_diff img) ! y ! x =
      map_pixel (\<lambda>d. add_channel 2 (- 100) d d) (rows D ! y ! x)"
    using chop_pixel [OF wfD(1) wfD(1), of x y "add_channel 2 (- 100)"] wfD(2,3) assms(2,3)
    by (simp add: map_pixel_def map_pixel2_def)
  show "rows D ! y ! x = map_pixel (\<lambda>c. difference_channel c 255) (rows img ! y ! x)"
    using chop_new_pixel [OF assms(1-3), of difference_channel "(255, 255, 255)"] assms(4)
    by (simp add: ImageChops_difference_def map_pixel_def map_pixel2_def)
qed

lemma amplified_zero_iff:
  "add_channel 2 (- 100) (difference_channel c 255) (difference_channel c 255) = 0 \<longleftrightarrow>
     255 - uint c \<le> 100"
proof -
  let ?d = "difference_channel c 255"
  have "uint ?d = 255 - uint c"
    using uint_byte_le [of c] by (simp add: uint_difference_channel)
  then have "uint (add_channel 2 (- 100) ?d ?d) = max (255 - uint c - 100) 0"
    by (simp add: uint_add_channel_self)
  moreover have "add_channel 2 (- 100) ?d ?d = 0 \<longleftrightarrow> uint (add_channel 2 (- 100) ?d ?d) = 0"
    by (simp add: uint_0_iff)
  ultimately show ?thesis by auto
qed

lemma trim_diff_nonzero:
  assumes "wf_image img" "x < width img" "y < height img"
  shows "nonzero (rows (trim_white_space_diff img) ! y ! x) \<longleftrightarrow> \<not> near_white (rows img ! y ! x)"
  using trim_diff_pixel [OF assms refl]
  by (auto simp: nonzero_def near_white_def map_pixel_def amplified_zero_iff)

text \<open>
  C9, as amended. In \<open>trim_white_space\<close> the amplification applied to the raw
  difference \<open>d\<close> of each channel before the bounding box is taken is
  \<^verbatim>\<open>(d + d) / 2.0 - 100\<close>, that is \<open>1 * d - 100\<close>, clamped to the channel range: the
  scale is 1, not 3. At the raw difference 50 the program gives 0 where a scale of 3
  gives 50.
\<close>

theorem trim_white_space_amplification:
  assumes "wf_image img" "x < width img" "y < height img"
    and "D = ImageChops_difference img (Image_new (width img, height img) (255, 255, 255))"
  shows "rows (trim_white_space_diff img) ! y ! x =
           map_pixel (\<lambda>d. clip8 (1 * uint d - 100)) (rows D ! y ! x)"
  using trim_diff_pixel(1) [OF assms] by (simp add: add_channel_self)

theorem trim_white_space_amplification_witness:
  "rows (trim_white_space_diff grey_pixel_image) ! 0 ! 0 = (0, 0, 0)"
proof -
  have "rows (ImageChops_difference grey_pixel_image
      (Image_new (width grey_pixel_image, height grey_pixel_image) (255, 255, 255))) ! 0 ! 0 =
      (50, 50, 50)"
    by code_simp
  moreover have "map_pixel (\<lambda>d. clip8 (1 * uint d - 100)) (50, 50, 50) = (0, 0, 0)"
    by (simp add: map_pixel_def clip8_def)
  moreover have "0 < width grey_pixel_image" "0 < height grey_pixel_image"
    by (simp_all add: grey_pixel_image_def)
  ultimately show ?thesis
    using trim_white_space_amplification [OF wf_fixtures(4) _ _ refl, of 0 0] by simp
qed

theorem trim_white_space_not_threefold:
  "rows (trim_white_space_diff grey_pixel_image) ! 0 ! 0 \<noteq>
     map_pixel spec_affine_remap
       (rows (ImageChops_difference grey_pixel_image (Image_new (1, 1) (255, 255, 255))) ! 0 ! 0)"
  by code_simp



lemma trim_none:
  assumes "getbbox (trim_white_space_diff img) = None"
  shows "trim_white_space img = Inr img"
  using assms by (simp add: trim_white_space_def)

lemma trim_some:
  assumes "getbbox (trim_white_space_diff img) = Some (x0, y0, x1, y1)"
  shows "trim_white_space img =
           crop img (max 0 (x0 - 15), max 0 (y0 - 15),
                     min (int (width img)) (x1 + 15), min (int (height img)) (y1 + 15))"
  using assms by (simp add: trim_white_space_def Let_def)

text \<open>
  C10, as amended. \<^verbatim>\<open>ImageChops.add(diff, diff, 2.0, -100)\<close> gives \<open>max (d - 100) 0\<close> in
  each channel. So a pixel is black in the amplified difference exactly when all its
  channels differ from white by at most 100, and such a pixel adds nothing to the
  bounding box: the box is the one of the pixels that are not near white (the box of
  \<open>marked\<close>, which marks them), and \<open>trim_white_space\<close> returns the image cropped to that
  box grown by 15 and clamped, or the image itself when every pixel is near white.
  Content lighter than the threshold is therefore cropped away only where it lies
  outside that crop; inside it, and in an image without darker content, it is kept.
\<close>

theorem trim_white_space_threshold:
  assumes "wf_image img"
    and "marked = img\<lparr>rows :=
           map (map (\<lambda>p. if near_white p then (0, 0, 0) else (255, 255, 255))) (rows img)\<rparr>"
  shows "uint (add_channel 2 (- 100) d d) = max (uint d - 100) 0 \<and>
         (\<forall>x<width img. \<forall>y<height img.
            near_white (rows img ! y ! x) \<longleftrightarrow>
              rows (trim_white_space_diff img) ! y ! x = (0, 0, 0)) \<and>
         getbbox (trim_white_space_diff img) = getbbox marked \<and>
         trim_white_space img =
           (case getbbox marked of
              None \<Rightarrow> Inr img
            | Some (x0, y0, x1, y1) \<Rightarrow>
                crop img (max 0 (x0 - 15), max 0 (y0 - 15),
                          min (int (width img)) (x1 + 15), min (int (height img)) (y1 + 15)))"
proof -
  have a: "uint (add_channel 2 (- 100) d d) = max (uint d - 100) 0"
    by (rule uint_add_channel_self)
  have b: "near_white (rows img ! y ! x) \<longleftrightarrow> rows (trim_white_space_diff img) ! y ! x = (0, 0, 0)"
    if "x < width img" "y < height img" for x y
    using trim_diff_nonzero [OF assms(1) that] by (simp add: nonzero_def)
  have sz: "width marked = width img" "height marked = height img"
    using assms(2) by simp_all
  have pm: "rows marked ! y ! x =
      (if near_white (rows img ! y ! x) then (0, 0, 0) else (255, 255, 255))"
    if "x < width img" "y < height img" for x y
    using that assms wf_row_length [OF assms(1) that(2)] by (simp add: wf_image_def)
  have "nonzero (rows (trim_white_space_diff img) ! y ! x) = nonzero (rows marked ! y ! x)"
    if "x < width img" "y < height img" for x y
    using trim_diff_nonzero [OF assms(1) that] pm [OF that] by (simp add: nonzero_def)
  then have c: "getbbox (trim_white_space_diff img) = getbbox marked"
    using sz by (intro getbbox_cong) simp_all
  have d: "trim_white_space img =
           (case getbbox marked of
              None \<Rightarrow> Inr img
            | Some (x0, y0, x1, y1) \<Rightarrow>
                crop img (max 0 (x0 - 15), max 0 (y0 - 15),
                          min (int (width img)) (x1 + 15), min (int (height img)) (y1 + 15)))"
  proof (cases "getbbox marked")
    case None
    with c trim_none [of img] show ?thesis by simp
  next
    case (Some bb)
    obtain x0 y0 x1 y1 where "bb = (x0, y0, x1, y1)" by (cases bb) auto
    with Some c trim_some [of img x0 y0 x1 y1] show ?thesis by simp
  qed
  from a b c d show ?thesis by blast
qed

theorem trim_white_space_threshold_witness:
  "uint (add_channel 2 (- 100) 120 120) = 20 \<and>
   rows (trim_white_space_diff faint_image) ! 0 ! 1 = (0, 0, 0) \<and>
   rows far_light_image ! 0 ! 39 = (200, 200, 200) \<and>
   trim_white_space far_light_image =
     Inr \<lparr>width = 16, height = 1, rows = [(0, 0, 0) # replicate 15 white]\<rparr>"
proof -
  have 1: "uint (add_channel 2 (- 100) 120 120) = 20"
    using trim_white_space_threshold [OF wf_fixtures2(3) refl, of 120] by simp
  have "near_white (rows faint_image ! 0 ! 1)" "1 < width faint_image" "0 < height faint_image"
    by (simp_all add: faint_image_def near_white_def)
  with trim_white_space_threshold [OF wf_fixtures2(3) refl, of 0]
  have 2: "rows (trim_white_space_diff faint_image) ! 0 ! 1 = (0, 0, 0)" by blast
  have 3: "rows far_light_image ! 0 ! 39 = (200, 200, 200)"
    by code_simp
  have box: "getbbox (far_light_image\<lparr>rows :=
      map (map (\<lambda>p. if near_white p then (0, 0, 0) else (255, 255, 255)))
        (rows far_light_image)\<rparr>) = Some (0, 0, 1, 1)"
    by code_simp
  have cr: "crop far_light_image
      (max 0 (0 - 15), max 0 (0 - 15),
       min (int (width far_light_image)) (1 + 15), min (int (height far_light_image)) (1 + 15)) =
      Inr \<lparr>width = 16, height = 1, rows = [(0, 0, 0) # replicate 15 white]\<rparr>"
    by code_simp
  from trim_white_space_threshold [OF wf_fixtures2(5) refl, of 0]
  have "trim_white_space far_light_image =
      crop far_light_image
        (max 0 (0 - 15), max 0 (0 - 15),
         min (int (width far_light_image)) (1 + 15),
         min (int (height far_light_image)) (1 + 15))"
    by (simp add: box)
  with cr have 4: "trim_white_space far_light_image =
      Inr \<lparr>width = 16, height = 1, rows = [(0, 0, 0) # replicate 15 white]\<rparr>"
    by simp
  from 1 2 3 4 show ?thesis by blast
qed

theorem trim_white_space_keeps_light_content:
  "near_white (200, 200, 200) \<and>
   rows pale_image ! 0 ! 0 = (200, 200, 200) \<and>
   trim_white_space pale_image = Inr pale_image \<and>
   rows two_tone_image ! 0 ! 16 = (200, 200, 200) \<and>
   trim_white_space two_tone_image =
     Inr \<lparr>width = 31, height = 1,
          rows = [replicate 14 (255, 255, 255) @ [(200, 200, 200), (0, 0, 0)] @
                  replicate 15 (255, 255, 255)]\<rparr>"
  by code_simp

text \<open>
  C7, as amended. When a bounding box is found, \<open>trim_white_space\<close> returns the image
  cropped to that box grown by 15 on each side, the left and upper edges clamped at 0
  and the right and lower ones at the width and the height. When the pixels that are
  not near white (some channel differs from white by more than 100) are exactly those
  of one non-empty rectangle inside the image, the result is the crop to that rectangle
  grown by 15 and clamped. A block that is not white but near white, a block on a
  ground that is not near white, and a block of which only a part is not near white do
  not give the block grown by 15: the first is not found at all, the second gives the
  whole image, the third the box of the part.
\<close>

theorem trim_white_space_padding:
  assumes "wf_image img"
  shows "(getbbox (trim_white_space_diff img) = Some (x0, y0, x1, y1) \<longrightarrow>
            trim_white_space img =
              crop img (max 0 (x0 - 15), max 0 (y0 - 15),
                        min (int (width img)) (x1 + 15), min (int (height img)) (y1 + 15))) \<and>
         (bx0 < bx1 \<and> bx1 \<le> width img \<and> by0 < by1 \<and> by1 \<le> height img \<and>
          (\<forall>x<width img. \<forall>y<height img.
             \<not> near_white (rows img ! y ! x) \<longleftrightarrow> (bx0 \<le> x \<and> x < bx1 \<and> by0 \<le> y \<and> y < by1)) \<longrightarrow>
            trim_white_space img =
              crop img (max 0 (int bx0 - 15), max 0 (int by0 - 15),
                        min (int (width img)) (int bx1 + 15),
                        min (int (height img)) (int by1 + 15)))"
proof -
  have "getbbox (trim_white_space_diff img) = Some (int bx0, int by0, int bx1, int by1)"
    if "bx0 < bx1" "bx1 \<le> width img" "by0 < by1" "by1 \<le> height img"
      "\<forall>x<width img. \<forall>y<height img.
         \<not> near_white (rows img ! y ! x) \<longleftrightarrow> (bx0 \<le> x \<and> x < bx1 \<and> by0 \<le> y \<and> y < by1)"
    using that trim_diff_nonzero [OF assms] by (intro getbbox_block) simp_all
  then show ?thesis using trim_some by blast
qed

theorem trim_white_space_padding_witness:
  "trim_white_space block_image = crop block_image (1, 0, 32, 1) \<and>
   crop block_image (1, 0, 32, 1) =
     Inr \<lparr>width = 31, height = 1,
          rows = [replicate 15 white @ [(0, 0, 0)] @ replicate 15 white]\<rparr>"
proof -
  have sz: "width block_image = 33" "height block_image = 1"
    by (simp_all add: block_image_def)
  have "\<not> near_white (rows block_image ! y ! x) \<longleftrightarrow> (16 \<le> x \<and> x < 17 \<and> 0 \<le> y \<and> y < 1)"
    if "x < 33" "y < 1" for x y
    using that by (auto simp: block_image_def near_white_def white_def nth_append nth_Cons')
  with trim_white_space_padding [OF wf_fixtures2(1), of _ _ _ _ 16 17 0 1] sz
  have "trim_white_space block_image = crop block_image (1, 0, 32, 1)" by simp
  moreover have "crop block_image (1, 0, 32, 1) =
     Inr \<lparr>width = 31, height = 1,
          rows = [replicate 15 white @ [(0, 0, 0)] @ replicate 15 white]\<rparr>"
    by code_simp
  ultimately show ?thesis by simp
qed

theorem trim_white_space_light_block:
  "rows light_block_image = [(200, 200, 200) # replicate 16 (255, 255, 255)] \<and>
   trim_white_space light_block_image = Inr light_block_image \<and>
   trim_white_space light_block_image \<noteq>
     crop light_block_image
       (max 0 (0 - 15), max 0 (0 - 15),
        min (int (width light_block_image)) (1 + 15),
        min (int (height light_block_image)) (1 + 15)) \<and>
   rows grey_ground_image =
     [replicate 16 (100, 100, 100) @ [(0, 0, 0)] @ replicate 16 (100, 100, 100)] \<and>
   getbbox (trim_white_space_diff grey_ground_image) = Some (0, 0, 33, 1) \<and>
   trim_white_space grey_ground_image = Inr grey_ground_image \<and>
   trim_white_space grey_ground_image \<noteq>
     crop grey_ground_image
       (max 0 (16 - 15), max 0 (0 - 15),
        min (int (width grey_ground_image)) (17 + 15),
        min (int (height grey_ground_image)) (1 + 15)) \<and>
   rows two_tone_image =
     [replicate 16 (255, 255, 255) @ [(200, 200, 200), (0, 0, 0)] @
      replicate 17 (255, 255, 255)] \<and>
   getbbox (trim_white_space_diff two_tone_image) = Some (17, 0, 18, 1) \<and>
   trim_white_space two_tone_image = crop two_tone_image (2, 0, 33, 1) \<and>
   trim_white_space two_tone_image \<noteq>
     crop two_tone_image
       (max 0 (16 - 15), max 0 (0 - 15),
        min (int (width two_tone_image)) (18 + 15),
        min (int (height two_tone_image)) (1 + 15))"
  by code_simp


end
